theory Spec2Isabelle
  imports Complex_Main
begin

section \<open>Stopping-point tables of the multipath detection algorithm (bound.c)\<close>

text \<open>
  A shallow embedding of \<^verbatim>\<open>algorithms/mda/bound.c\<close>.

  \<^item> \<^verbatim>\<open>probability_t\<close>, \<^verbatim>\<open>double\<close> and \<^verbatim>\<open>long double\<close> are the real
    numbers: no rounding, no underflow.  The one place where the source leaves the reals
    (\<^verbatim>\<open>1.0 / max_branch\<close> with a zero divisor, \<^verbatim>\<open>pow\<close> outside its domain) is
    written out in \<open>node_confidence\<close>.
  \<^item> \<^verbatim>\<open>size_t\<close> is a natural number below \<open>2 ^ 64\<close>; the increment of the row
    counter, \<^verbatim>\<open>NUM_PROBES\<close> and the final subtraction wrap modulo \<open>2 ^ 64\<close>.
    Increments guarded by a loop test \<^verbatim>\<open>j < hypothesis\<close> cannot wrap and are plain.
  \<^item> A pointer is an \<open>option\<close>: \<open>None\<close> is \<^verbatim>\<open>NULL\<close>.  Reading or writing
    through \<^verbatim>\<open>NULL\<close> or outside an array is an error value.
  \<^item> The allocator is a parameter: every allocation either fails or succeeds, and
    memory that the source does not initialise (\<^verbatim>\<open>malloc\<close>, the tail of a
    \<^verbatim>\<open>realloc\<close>) holds the values the parameter supplies.
  \<^item> The row loop of the build has no bound in the source; it runs on fuel, and
    \<open>OutOfFuel\<close> says that it has not returned within the given number of rows.
\<close>

subsection \<open>Values, errors, memory\<close>

type_synonym probability_t = real

datatype error = NullDeref | OutOfBounds | NonFinite | OutOfFuel

definition SIZE_WRAP :: nat where
  "SIZE_WRAP = 2 ^ 64"

definition rd :: "'a list option \<Rightarrow> nat \<Rightarrow> error + 'a" where
  "rd p i = (case p of
       None \<Rightarrow> Inl NullDeref
     | Some xs \<Rightarrow> if i < length xs then Inr (xs ! i) else Inl OutOfBounds)"

definition wr :: "'a list option \<Rightarrow> nat \<Rightarrow> 'a \<Rightarrow> error + 'a list option" where
  "wr p i v = (case p of
       None \<Rightarrow> Inl NullDeref
     | Some xs \<Rightarrow> if i < length xs then Inr (Some (xs[i := v])) else Inl OutOfBounds)"

text \<open>\<^verbatim>\<open>calloc\<close>: \<open>False\<close> is failure, success gives zeros.\<close>

definition calloc :: "bool \<Rightarrow> nat \<Rightarrow> 'a::zero list option" where
  "calloc ok n = (if ok then Some (replicate n 0) else None)"

text \<open>\<^verbatim>\<open>malloc\<close> of an array: \<open>None\<close> is failure, \<open>Some g\<close> succeeds with cell \<open>k\<close>
  holding \<open>g k\<close>.\<close>

definition malloc :: "(nat \<Rightarrow> 'a) option \<Rightarrow> nat \<Rightarrow> 'a list option" where
  "malloc a n = (case a of None \<Rightarrow> None | Some g \<Rightarrow> Some (map g [0..<n]))"

text \<open>\<^verbatim>\<open>realloc\<close>: the old cells are kept, the new ones hold what the allocator supplies.\<close>

definition realloc :: "'a list option \<Rightarrow> (nat \<Rightarrow> 'a) option \<Rightarrow> nat \<Rightarrow> 'a list option" where
  "realloc p a n = (case a of
       None \<Rightarrow> None
     | Some g \<Rightarrow> (case p of
          None \<Rightarrow> Some (map g [0..<n])
        | Some xs \<Rightarrow> Some (take n xs @ map g [length xs..<n])))"

subsection \<open>The structures\<close>

record bound_state_t =
  first :: "probability_t list option"
  second :: "probability_t list option"

record bound_t =
  confidence :: "real option"
  max_n :: nat
  nk_table :: "nat list option"
  ak_table :: "probability_t list option"
  pr_failure :: "probability_t list option"
  state :: "bound_state_t option"

text \<open>The outcomes of the allocations of \<^verbatim>\<open>bound_create\<close> (with
  \<^verbatim>\<open>bound_state_create\<close>) and of \<^verbatim>\<open>reallocate_bound\<close>, in the order of the calls.\<close>

record create_allocs =
  a_bound :: bool
  a_nk :: bool
  a_ak :: bool
  a_pr :: bool
  a_state :: bool
  a_first :: "(nat \<Rightarrow> probability_t) option"
  a_second :: "(nat \<Rightarrow> probability_t) option"

record realloc_allocs =
  r_first :: "(nat \<Rightarrow> probability_t) option"
  r_second :: "(nat \<Rightarrow> probability_t) option"
  r_nk :: "(nat \<Rightarrow> nat) option"
  r_ak :: "(nat \<Rightarrow> probability_t) option"
  r_pr :: "(nat \<Rightarrow> probability_t) option"

subsection \<open>The macros\<close>

definition PROBA_HOR :: "nat \<Rightarrow> nat \<Rightarrow> real" where
  "PROBA_HOR i j = real j / real i"

definition PROBA_VER :: "nat \<Rightarrow> nat \<Rightarrow> real" where
  "PROBA_VER i j = real ((i + SIZE_WRAP - j + 1) mod SIZE_WRAP) / real i"

definition NUM_PROBES :: "nat \<Rightarrow> nat \<Rightarrow> nat" where
  "NUM_PROBES i j = (i + j + SIZE_WRAP - 1) mod SIZE_WRAP"

definition HSTART :: nat where
  "HSTART = 2"

subsection \<open>bound_state_t\<close>

definition bound_state_create :: "create_allocs \<Rightarrow> nat \<Rightarrow> bound_state_t option" where
  "bound_state_create a max_interfaces =
     (if \<not> a_state a then None
      else (case malloc (a_first a) max_interfaces of
          None \<Rightarrow> None
        | Some f \<Rightarrow> (case malloc (a_second a) max_interfaces of
            None \<Rightarrow> None
          | Some s \<Rightarrow> Some \<lparr>first = Some f, second = Some s\<rparr>)))"

subsection \<open>Private helper functions\<close>

definition continue_condition :: "nat \<Rightarrow> nat \<Rightarrow> real \<Rightarrow> bound_t \<Rightarrow> error + (bool \<times> bound_t)" where
  "continue_condition jstart hypothesis cur_state bound =
     (if jstart = (hypothesis + SIZE_WRAP - 1) mod SIZE_WRAP then
        (case rd (ak_table bound) hypothesis of
           Inl e \<Rightarrow> Inl e
         | Inr ak \<Rightarrow>
             if cur_state \<le> ak then
               (case wr (pr_failure bound) hypothesis cur_state of
                  Inl e \<Rightarrow> Inl e
                | Inr p \<Rightarrow> Inr (False, bound\<lparr>pr_failure := p\<rparr>))
             else Inr (True, bound))
      else Inr (True, bound))"

definition calculate :: "bound_state_t \<Rightarrow> nat \<Rightarrow> nat \<Rightarrow> error + probability_t" where
  "calculate bound_state hypothesis j =
     (case rd (first bound_state) j of
        Inl e \<Rightarrow> Inl e
      | Inr f \<Rightarrow>
          (case rd (second bound_state) ((j + SIZE_WRAP - 1) mod SIZE_WRAP) of
             Inl e \<Rightarrow> Inl e
           | Inr s \<Rightarrow> Inr (f * PROBA_HOR hypothesis j + s * PROBA_VER hypothesis j)))"

definition swap :: "bound_state_t \<Rightarrow> bound_state_t" where
  "swap bound_state = \<lparr>first = second bound_state, second = first bound_state\<rparr>"

text \<open>The loop \<^verbatim>\<open>for (j = 0; j < bound->max_n; ++j) bound_state->first[j] = 0.0\<close>.\<close>

function init_first :: "nat \<Rightarrow> nat \<Rightarrow> probability_t list option \<Rightarrow> error + probability_t list option" where
  "init_first j n p =
     (if j < n then
        (case wr p j 0 of Inl e \<Rightarrow> Inl e | Inr p' \<Rightarrow> init_first (Suc j) n p')
      else Inr p)"
  by pat_completeness auto
termination
  by (relation "measure (\<lambda>(j, n, p). n - j)") auto

definition init_state :: "bound_t \<Rightarrow> bound_state_t \<Rightarrow> error + (bound_state_t \<times> probability_t)" where
  "init_state bound bound_state =
     (case init_first 0 (max_n bound) (first bound_state) of
        Inl e \<Rightarrow> Inl e
      | Inr f \<Rightarrow>
          (case wr (second bound_state) 0 0 of
             Inl e \<Rightarrow> Inl e
           | Inr s0 \<Rightarrow>
               (case wr s0 1 1 of
                  Inl e \<Rightarrow> Inl e
                | Inr s1 \<Rightarrow> Inr (\<lparr>first = f, second = s1\<rparr>, 1))))"

text \<open>
  \<^verbatim>\<open>1.0 / max_branch\<close> is \<open>+\<infinity>\<close> for a zero divisor, and \<^verbatim>\<open>pow (x, +\<infinity>)\<close> is
  \<open>0\<close> for \<open>\<bar>x\<bar> < 1\<close>, \<open>1\<close> for \<open>\<bar>x\<bar> = 1\<close> and \<open>+\<infinity>\<close> otherwise; \<^verbatim>\<open>pow\<close> of a
  negative base is the base for the exponent \<open>1.0\<close> and not a number for the other
  exponents \<^verbatim>\<open>1.0 / max_branch\<close>.  \<open>None\<close> is a result that is not a real number.
\<close>

definition node_confidence :: "real \<Rightarrow> nat \<Rightarrow> real option" where
  "node_confidence graph_confidence max_branch =
     (let x = 1 - graph_confidence in
      if max_branch = 0 then
        (if \<bar>x\<bar> < 1 then Some (1 - 0) else if \<bar>x\<bar> = 1 then Some (1 - 1) else None)
      else if 0 \<le> x then Some (1 - x powr (1 / real max_branch))
      else if max_branch = 1 then Some (1 - x)
      else None)"

text \<open>The loop \<^verbatim>\<open>for (i = 3; i < bound->max_n + 1; i++)\<close> of \<^verbatim>\<open>bound_init_aks\<close>.\<close>

function aks_loop :: "real \<Rightarrow> real \<Rightarrow> nat \<Rightarrow> nat \<Rightarrow> probability_t list option \<Rightarrow> error + probability_t list option" where
  "aks_loop a1 r i n p =
     (if i < n then
        (case wr p i (a1 * r ^ (i - 2)) of Inl e \<Rightarrow> Inl e | Inr p' \<Rightarrow> aks_loop a1 r (Suc i) n p')
      else Inr p)"
  by pat_completeness auto
termination
  by (relation "measure (\<lambda>(a1, r, i, n, p). n - i)") auto

definition bound_init_aks :: "bound_t \<Rightarrow> error + bound_t" where
  "bound_init_aks bound =
     (case confidence bound of
        None \<Rightarrow> Inl NonFinite
      | Some c \<Rightarrow>
          (let r = 9 / 10; a1 = (1 - r) * c in
           case wr (ak_table bound) 0 0 of
             Inl e \<Rightarrow> Inl e
           | Inr p0 \<Rightarrow>
               (case wr p0 1 0 of
                  Inl e \<Rightarrow> Inl e
                | Inr p1 \<Rightarrow>
                    (case wr p1 2 a1 of
                       Inl e \<Rightarrow> Inl e
                     | Inr p2 \<Rightarrow>
                         (case aks_loop a1 r 3 ((max_n bound + 1) mod SIZE_WRAP) p2 of
                            Inl e \<Rightarrow> Inl e
                          | Inr p3 \<Rightarrow> Inr (bound\<lparr>ak_table := p3\<rparr>))))))"

text \<open>
  \<^verbatim>\<open>reallocate_bound\<close> assigns the result of each \<^verbatim>\<open>realloc\<close> to the pointer it
  reallocates and leaves at the first failure.
\<close>

definition reallocate_bound :: "realloc_allocs \<Rightarrow> bound_t \<Rightarrow> nat \<Rightarrow> error + (bool \<times> bound_t)" where
  "reallocate_bound a bound new_max_n =
     (case state bound of
        None \<Rightarrow> Inl NullDeref
      | Some st \<Rightarrow>
          (let f = realloc (first st) (r_first a) new_max_n;
               st1 = st\<lparr>first := f\<rparr>;
               b1 = bound\<lparr>state := Some st1\<rparr> in
           if f = None then Inr (False, b1)
           else
             (let s = realloc (second st1) (r_second a) new_max_n;
                  b2 = b1\<lparr>state := Some (st1\<lparr>second := s\<rparr>)\<rparr> in
              if s = None then Inr (False, b2)
              else
                (let nk = realloc (nk_table b2) (r_nk a) ((new_max_n + 1) mod SIZE_WRAP);
                     b3 = b2\<lparr>nk_table := nk\<rparr> in
                 if nk = None then Inr (False, b3)
                 else
                   (let ak = realloc (ak_table b3) (r_ak a) ((new_max_n + 1) mod SIZE_WRAP);
                        b4 = b3\<lparr>ak_table := ak\<rparr> in
                    if ak = None then Inr (False, b4)
                    else
                      (let pr = realloc (pr_failure b4) (r_pr a) ((new_max_n + 1) mod SIZE_WRAP);
                           b5 = b4\<lparr>pr_failure := pr\<rparr> in
                       if pr = None then Inr (False, b5)
                       else Inr (True, b5)))))))"

subsection \<open>The build\<close>

text \<open>
  The loop \<^verbatim>\<open>for (j = jstart; j < hypothesis; ++j)\<close> of \<^verbatim>\<open>bound_build\<close>, on the
  variables it writes: \<open>jstart\<close>, \<open>cur_state\<close> and the two vectors.  It returns the
  final \<open>j\<close> with them.
\<close>

function fill_vector ::
  "nat list option \<Rightarrow> nat \<Rightarrow> nat \<Rightarrow> nat \<Rightarrow> nat \<times> real \<times> bound_state_t
     \<Rightarrow> error + (nat \<times> nat \<times> real \<times> bound_state_t)" where
  "fill_vector nk hypothesis i j (jstart, cur_state, st) =
     (if j < hypothesis then
        (case calculate st hypothesis j of
           Inl e \<Rightarrow> Inl e
         | Inr c \<Rightarrow>
             (case rd nk (j + 1) of
                Inl e \<Rightarrow> Inl e
              | Inr stop \<Rightarrow>
                  if NUM_PROBES i j = stop then
                    (case wr (second st) j 0 of
                       Inl e \<Rightarrow> Inl e
                     | Inr s \<Rightarrow>
                         (case wr (first st) j 0 of
                            Inl e \<Rightarrow> Inl e
                          | Inr f \<Rightarrow>
                              fill_vector nk hypothesis i (Suc j)
                                (j + 1, c, \<lparr>first = f, second = s\<rparr>)))
                  else
                    (case wr (second st) j c of
                       Inl e \<Rightarrow> Inl e
                     | Inr s \<Rightarrow>
                         fill_vector nk hypothesis i (Suc j)
                           (jstart, c, st\<lparr>second := s\<rparr>))))
      else Inr (j, jstart, cur_state, st))"
  by pat_completeness auto
termination
  by (relation "measure (\<lambda>(nk, hypothesis, i, j, v). hypothesis - j)") auto

text \<open>The variables of \<^verbatim>\<open>bound_build\<close> that the row loop reads and writes.\<close>

record build_vars =
  v_i :: nat
  v_j :: nat
  v_jstart :: nat
  v_cur :: probability_t
  v_bound :: bound_t
  v_st :: bound_state_t

text \<open>
  The loop \<^verbatim>\<open>for (i = 1; continue_condition (...); ++i)\<close>.  The fuel counts the
  evaluations of the loop test.
\<close>

primrec row_loop :: "nat \<Rightarrow> nat \<Rightarrow> build_vars \<Rightarrow> error + build_vars" where
  "row_loop 0 hypothesis v = Inl OutOfFuel"
| "row_loop (Suc n) hypothesis v =
     (case continue_condition (v_jstart v) hypothesis (v_cur v) (v_bound v) of
        Inl e \<Rightarrow> Inl e
      | Inr (c, b) \<Rightarrow>
          if c then
            (case fill_vector (nk_table b) hypothesis (v_i v) (v_jstart v)
                    (v_jstart v, v_cur v, v_st v) of
               Inl e \<Rightarrow> Inl e
             | Inr (j, jstart, cur_state, st) \<Rightarrow>
                 row_loop n hypothesis
                   \<lparr>v_i = (v_i v + 1) mod SIZE_WRAP, v_j = j,
                    v_jstart = (if v_i v = 1 then 1 else jstart),
                    v_cur = cur_state, v_bound = b, v_st = swap st\<rparr>)
          else Inr (v\<lparr>v_bound := b\<rparr>))"

text \<open>
  The loop \<^verbatim>\<open>for ( ; hypothesis <= bound->max_n; ++hypothesis)\<close>.  Nothing in it
  writes \<^verbatim>\<open>bound->max_n\<close>, which is read once, as \<open>m\<close>.  The variable \<open>j\<close> keeps
  its value from one hypothesis to the next.
\<close>

function hypothesis_loop ::
  "nat \<Rightarrow> nat \<Rightarrow> nat \<Rightarrow> nat \<Rightarrow> bound_t \<Rightarrow> bound_state_t \<Rightarrow> error + (bound_t \<times> bound_state_t)" where
  "hypothesis_loop n m hypothesis j bound st =
     (if hypothesis \<le> m then
        (case init_state bound st of
           Inl e \<Rightarrow> Inl e
         | Inr (st1, cur_state) \<Rightarrow>
             (case row_loop n hypothesis
                     \<lparr>v_i = 1, v_j = j, v_jstart = 2, v_cur = cur_state,
                      v_bound = bound, v_st = st1\<rparr> of
                Inl e \<Rightarrow> Inl e
              | Inr v \<Rightarrow>
                  (case wr (nk_table (v_bound v)) hypothesis
                          ((NUM_PROBES (v_i v) (v_j v) + SIZE_WRAP - 2) mod SIZE_WRAP) of
                     Inl e \<Rightarrow> Inl e
                   | Inr nk \<Rightarrow>
                       hypothesis_loop n m (Suc hypothesis) (v_j v)
                         ((v_bound v)\<lparr>nk_table := nk\<rparr>) (v_st v))))
      else Inr (bound, st))"
  by pat_completeness auto
termination
  by (relation "measure (\<lambda>(n, m, hypothesis, j, bound, st). m + 1 - hypothesis)") auto

text \<open>
  \<^verbatim>\<open>bound_build\<close> on what the handle points to; \<open>None\<close> is the \<^verbatim>\<open>NULL\<close> handle.
  The local \<^verbatim>\<open>state\<close> is the pointer \<^verbatim>\<open>bound->state\<close>, whose target
  \<^verbatim>\<open>reallocate_bound\<close> updates in place.
\<close>

definition bound_build :: "nat \<Rightarrow> realloc_allocs \<Rightarrow> bound_t option \<Rightarrow> nat \<Rightarrow> error + bound_t option" where
  "bound_build n a handle end_h =
     (case handle of
        None \<Rightarrow> Inr None
      | Some bound \<Rightarrow>
          if nk_table bound = None \<or> state bound = None then Inr (Some bound)
          else
            (case (if end_h > max_n bound then
                     (case reallocate_bound a bound end_h of
                        Inl e \<Rightarrow> Inl e
                      | Inr (ok, b1) \<Rightarrow>
                          if ok then
                            (case bound_init_aks (b1\<lparr>max_n := end_h\<rparr>) of
                               Inl e \<Rightarrow> Inl e
                             | Inr b2 \<Rightarrow> Inr ((max_n bound + 1) mod SIZE_WRAP, b2))
                          else Inr (HSTART, b1))
                   else Inr (HSTART, bound)) of
               Inl e \<Rightarrow> Inl e
             | Inr (hypothesis, b) \<Rightarrow>
                 (case state b of
                    None \<Rightarrow> Inl NullDeref
                  | Some st \<Rightarrow>
                      (case hypothesis_loop n (max_n b) hypothesis 0 b st of
                         Inl e \<Rightarrow> Inl e
                       | Inr (b', st') \<Rightarrow> Inr (Some (b'\<lparr>state := Some st'\<rparr>))))))"

text \<open>
  \<^verbatim>\<open>bound_create\<close>.  Its call of \<^verbatim>\<open>bound_build\<close> has \<^verbatim>\<open>end = bound->max_n\<close> and
  reallocates nothing, so the outcomes it passes on are never looked at.
\<close>

definition no_realloc :: realloc_allocs where
  "no_realloc = \<lparr>r_first = None, r_second = None, r_nk = None, r_ak = None, r_pr = None\<rparr>"

definition bound_create :: "nat \<Rightarrow> create_allocs \<Rightarrow> real \<Rightarrow> nat \<Rightarrow> nat \<Rightarrow> error + bound_t option" where
  "bound_create n a confidence_arg max_interfaces max_branch =
     (if \<not> a_bound a then Inr None
      else
        (case calloc (a_nk a) ((max_interfaces + 1) mod SIZE_WRAP) of
           None \<Rightarrow> Inr None
         | Some nk \<Rightarrow>
             (case calloc (a_ak a) ((max_interfaces + 1) mod SIZE_WRAP) of
                None \<Rightarrow> Inr None
              | Some ak \<Rightarrow>
                  (case calloc (a_pr a) ((max_interfaces + 1) mod SIZE_WRAP) of
                     None \<Rightarrow> Inr None
                   | Some pr \<Rightarrow>
                       (case bound_state_create a max_interfaces of
                          None \<Rightarrow> Inr None
                        | Some st \<Rightarrow>
                            (case wr (Some nk) 0 0 of
                               Inl e \<Rightarrow> Inl e
                             | Inr nk0 \<Rightarrow>
                                 (case wr nk0 1 0 of
                                    Inl e \<Rightarrow> Inl e
                                  | Inr nk1 \<Rightarrow>
                                      (case bound_init_aks
                                              \<lparr>confidence = node_confidence confidence_arg max_branch,
                                               max_n = max_interfaces, nk_table = nk1,
                                               ak_table = Some ak, pr_failure = Some pr,
                                               state = Some st\<rparr> of
                                         Inl e \<Rightarrow> Inl e
                                       | Inr b \<Rightarrow> bound_build n no_realloc (Some b) (max_n b)))))))))"

text \<open>\<^verbatim>\<open>bound_get_nk\<close>, returning what the handle points to after the call with the result.\<close>

definition bound_get_nk :: "bound_t option \<Rightarrow> nat \<Rightarrow> error + (bound_t option \<times> nat)" where
  "bound_get_nk handle k =
     (case handle of
        None \<Rightarrow> Inr (handle, 0)
      | Some bound \<Rightarrow>
          if nk_table bound \<noteq> None \<and> max_n bound \<ge> k then
            (case rd (nk_table bound) k of
               Inl e \<Rightarrow> Inl e
             | Inr ret \<Rightarrow> Inr (handle, ret))
          else Inr (handle, 0))"

subsection \<open>The significance levels as the paper gives them\<close>

text \<open>The closed form of the specification: entries 0 and 1 are zero, entry \<open>i \<ge> 2\<close> is
  \<open>(1 - r) * confidence * r ^ (i - 2)\<close> with \<open>r = 0.9\<close>.\<close>

definition significance_levels :: "real \<Rightarrow> nat \<Rightarrow> real list" where
  "significance_levels c n =
     map (\<lambda>i. if i < 2 then 0 else (1 - 9 / 10) * c * (9 / 10) ^ (i - 2)) [0..<n]"

subsection \<open>A table to evaluate on\<close>

text \<open>The table that \<^verbatim>\<open>bound_create (0.95, 2, 1)\<close> builds, and the allocator it was
  built with.\<close>

definition example_allocs :: create_allocs where
  "example_allocs =
     \<lparr>a_bound = True, a_nk = True, a_ak = True, a_pr = True, a_state = True,
      a_first = Some (\<lambda>k. 7), a_second = Some (\<lambda>k. 7)\<rparr>"

definition example_bound :: bound_t where
  "example_bound =
     \<lparr>confidence = Some (19 / 20), max_n = 2, nk_table = Some [0, 0, 5],
      ak_table = Some [0, 0, 19 / 200], pr_failure = Some [0, 0, 1 / 16],
      state = Some \<lparr>first = Some [0, 1 / 16], second = Some [0, 1 / 8]\<rparr>\<rparr>"

text \<open>
  The table that \<^verbatim>\<open>bound_create (0.95, 3, 1)\<close> builds; an allocator whose
  \<^verbatim>\<open>realloc\<close> hands out cells that hold 2 in the stopping-point table; and the table
  that growing \<open>example_bound\<close> to 3 with it builds.
\<close>

definition example_batch3 :: bound_t where
  "example_batch3 =
     \<lparr>confidence = Some (19 / 20), max_n = 3, nk_table = Some [0, 0, 5, 9],
      ak_table = Some [0, 0, 19 / 200, 171 / 2000],
      pr_failure = Some [0, 0, 1 / 16, 160 / 2187],
      state = Some \<lparr>first = Some [0, 0, 160 / 2187], second = Some [0, 0, 80 / 729]\<rparr>\<rparr>"

definition stale_allocs :: realloc_allocs where
  "stale_allocs =
     \<lparr>r_first = Some (\<lambda>k. 7), r_second = Some (\<lambda>k. 7), r_nk = Some (\<lambda>k. 2),
      r_ak = Some (\<lambda>k. 7), r_pr = Some (\<lambda>k. 7)\<rparr>"

definition example_stale3 :: bound_t where
  "example_stale3 =
     \<lparr>confidence = Some (19 / 20), max_n = 3, nk_table = Some [0, 0, 5, 7],
      ak_table = Some [0, 0, 19 / 200, 171 / 2000],
      pr_failure = Some [0, 0, 1 / 16, 56 / 729],
      state = Some \<lparr>first = Some [0, 0, 56 / 729], second = Some [0, 0, 28 / 243]\<rparr>\<rparr>"

subsection \<open>Invariants of the build\<close>

text \<open>
  \<open>st_ok L\<close>: both vectors are allocated with \<open>L\<close> cells.  \<open>build_frame h0 m b b'\<close>:
  what the hypothesis loop from \<open>h0\<close> to \<open>m\<close> may have changed between \<open>b\<close> and \<open>b'\<close>.
  \<open>table_inv h0 b\<close>: the table is allocated for \<open>max_n\<close>, its significance levels are
  the closed form, and the recorded failure probabilities below \<open>h0\<close> respect them.
  \<open>built N b\<close>: \<open>b\<close> is what a handle points to after a \<^verbatim>\<open>bound_create\<close> and any
  number of \<^verbatim>\<open>bound_build\<close> calls that returned, each row loop within \<open>N\<close> tests.
\<close>

definition st_ok :: "nat \<Rightarrow> bound_state_t \<Rightarrow> bool" where
  "st_ok L st \<longleftrightarrow> (\<exists>f s. first st = Some f \<and> second st = Some s \<and> length f = L \<and> length s = L)"

definition build_frame :: "nat \<Rightarrow> nat \<Rightarrow> bound_t \<Rightarrow> bound_t \<Rightarrow> bool" where
  "build_frame h0 m b b' \<longleftrightarrow>
     confidence b' = confidence b \<and> max_n b' = max_n b \<and> ak_table b' = ak_table b \<and>
     state b' = state b \<and>
     map_option length (nk_table b') = map_option length (nk_table b) \<and>
     map_option length (pr_failure b') = map_option length (pr_failure b) \<and>
     (\<forall>k. k < h0 \<or> m < k \<longrightarrow>
        rd (nk_table b') k = rd (nk_table b) k \<and> rd (pr_failure b') k = rd (pr_failure b) k) \<and>
     (\<forall>h. h0 \<le> h \<and> h \<le> m \<longrightarrow>
        (\<exists>p a. rd (pr_failure b') h = Inr p \<and> rd (ak_table b) h = Inr a \<and> p \<le> a) \<and>
        (\<exists>x. rd (nk_table b') h = Inr x))"

definition table_inv :: "nat \<Rightarrow> bound_t \<Rightarrow> bool" where
  "table_inv h0 b \<longleftrightarrow>
     2 \<le> max_n b \<and> max_n b + 1 < SIZE_WRAP \<and>
     (\<exists>c. confidence b = Some c \<and> ak_table b = Some (significance_levels c (max_n b + 1))) \<and>
     (\<exists>nk. nk_table b = Some nk \<and> length nk = max_n b + 1 \<and> nk ! 0 = 0 \<and> nk ! 1 = 0) \<and>
     (\<exists>pr. pr_failure b = Some pr \<and> length pr = max_n b + 1) \<and>
     (\<exists>st. state b = Some st \<and> st_ok (max_n b) st) \<and>
     (\<forall>h. 2 \<le> h \<and> h < h0 \<and> h \<le> max_n b \<longrightarrow>
        (\<exists>p a. rd (pr_failure b) h = Inr p \<and> rd (ak_table b) h = Inr a \<and> p \<le> a))"

inductive built :: "nat \<Rightarrow> bound_t \<Rightarrow> bool" for N :: nat where
  created: "n \<le> N \<Longrightarrow> bound_create n a c max_interfaces max_branch = Inr (Some b) \<Longrightarrow> built N b"
| rebuilt: "built N b \<Longrightarrow> n \<le> N \<Longrightarrow> bound_build n a (Some b) end_h = Inr (Some b') \<Longrightarrow> built N b'"

(* definitions end *)

section \<open>Properties\<close>

declare init_first.simps [simp del] aks_loop.simps [simp del] fill_vector.simps [simp del]
  hypothesis_loop.simps [simp del]

subsection \<open>Lookup\<close>

text \<open>
  C9.  \<^verbatim>\<open>bound_get_nk (bound, k)\<close> returns 0 for the \<^verbatim>\<open>NULL\<close> handle, for a
  \<^verbatim>\<open>NULL\<close> stopping-point table and for \<open>k\<close> beyond \<open>max_n\<close>; on a table of
  \<open>max_n + 1\<close> entries it returns entry \<open>k\<close> for \<open>k \<le> max_n\<close>.  In every case the
  handle points to the same, unchanged table after the call.
\<close>

theorem bound_get_nk_frame:
  "bound_get_nk None k = Inr (None, 0) \<and>
   (nk_table b = None \<or> max_n b < k \<longrightarrow> bound_get_nk (Some b) k = Inr (Some b, 0)) \<and>
   (nk_table b = Some nk \<and> length nk = max_n b + 1 \<and> k \<le> max_n b \<longrightarrow>
      bound_get_nk (Some b) k = Inr (Some b, nk ! k))"
  by (auto simp: bound_get_nk_def rd_def)

theorem bound_get_nk_frame_witness:
  "bound_get_nk (Some example_bound) 7 = Inr (Some example_bound, 0) \<and>
   bound_get_nk (Some example_bound) 2 = Inr (Some example_bound, 5)"
  using bound_get_nk_frame [where b = example_bound and k = 7 and nk = "[0, 0, 5]"]
    bound_get_nk_frame [where b = example_bound and k = 2 and nk = "[0, 0, 5]"]
  by (simp add: example_bound_def)

subsection \<open>Initialising the rolling buffers\<close>

lemma init_first_zero:
  "n \<le> length f \<Longrightarrow> j \<le> n \<Longrightarrow>
   init_first j n (Some f) = Inr (Some (take j f @ replicate (n - j) 0 @ drop n f))"
proof (induction "n - j" arbitrary: j f)
  case 0
  then show ?case by (subst init_first.simps) simp
next
  case (Suc d)
  then have lt: "j < n" by simp
  have len: "j < length f" using lt Suc.prems by simp
  have step: "init_first (Suc j) n (Some (f[j := 0])) =
      Inr (Some (take (Suc j) (f[j := 0]) @ replicate (n - Suc j) 0 @ drop n (f[j := 0])))"
    using Suc.hyps(2) Suc.prems lt by (intro Suc.hyps(1)) simp_all
  have "take (Suc j) (f[j := 0]) = take j f @ [0]"
    using len by (simp add: take_Suc_conv_app_nth)
  moreover have "drop n (f[j := 0]) = drop n f"
    using lt by simp
  moreover have "replicate (n - j) (0::real) = 0 # replicate (n - Suc j) 0"
    using lt by (metis Suc_diff_Suc replicate_Suc)
  ultimately show ?case
    using lt len step by (subst init_first.simps) (simp add: wr_def)
qed

lemma init_state_result:
  "first st = Some f \<Longrightarrow> second st = Some s \<Longrightarrow> length f = max_n b \<Longrightarrow> 2 \<le> length s \<Longrightarrow>
   init_state b st =
     Inr (\<lparr>first = Some (replicate (max_n b) 0), second = Some (s[0 := 0, 1 := 1])\<rparr>, 1)"
  by (cases s) (auto simp: init_state_def init_first_zero wr_def)

text \<open>
  C7, as the code has it.  On vectors of the allocated lengths, \<^verbatim>\<open>init_state\<close> zeroes
  the whole first vector, sets entries 0 and 1 of the second vector to 0 and 1, leaves
  every other entry of the second vector as it was, and returns 1.
\<close>

theorem init_state_effect:
  "first st = Some f \<Longrightarrow> second st = Some s \<Longrightarrow> length f = max_n b \<Longrightarrow> 2 \<le> length s \<Longrightarrow>
   init_state b st =
     Inr (\<lparr>first = Some (replicate (max_n b) 0), second = Some (s[0 := 0, 1 := 1])\<rparr>, 1)"
  by (rule init_state_result)

theorem init_state_effect_witness:
  "init_state example_bound \<lparr>first = Some [3, 4], second = Some [5, 6]\<rparr> =
     Inr (\<lparr>first = Some [0, 0], second = Some [0, 1]\<rparr>, 1)"
  using init_state_effect [of "\<lparr>first = Some [3, 4], second = Some [5, 6]\<rparr>" "[3, 4]" "[5, 6]"
      example_bound]
  by (simp add: example_bound_def numeral_2_eq_2)

text \<open>
  C7 as stated fails: an entry of the second vector above index 1 keeps its old value.
\<close>

theorem init_state_counterexample:
  "init_state (example_bound\<lparr>max_n := 3\<rparr>) \<lparr>first = Some [7, 7, 7], second = Some [7, 7, 7]\<rparr> =
     Inr (\<lparr>first = Some [0, 0, 0], second = Some [0, 1, 7]\<rparr>, 1)"
  by (simp add: init_state_result example_bound_def numeral_3_eq_3)

subsection \<open>Significance levels\<close>

lemma small_mod: "n < SIZE_WRAP \<Longrightarrow> n mod SIZE_WRAP = n"
  by simp

lemma aks_loop_result:
  "n \<le> length p \<Longrightarrow> i \<le> n \<Longrightarrow>
   aks_loop a1 r i n (Some p) =
     Inr (Some (take i p @ map (\<lambda>k. a1 * r ^ (k - 2)) [i..<n] @ drop n p))"
proof (induction "n - i" arbitrary: i p)
  case 0
  then show ?case by (subst aks_loop.simps) simp
next
  case (Suc d)
  then have lt: "i < n" by simp
  have len: "i < length p" using lt Suc.prems by simp
  let ?v = "a1 * r ^ (i - 2)"
  have step: "aks_loop a1 r (Suc i) n (Some (p[i := ?v])) =
      Inr (Some (take (Suc i) (p[i := ?v]) @ map (\<lambda>k. a1 * r ^ (k - 2)) [Suc i..<n]
                 @ drop n (p[i := ?v])))"
    using Suc.hyps(2) Suc.prems lt by (intro Suc.hyps(1)) simp_all
  have "take (Suc i) (p[i := ?v]) = take i p @ [?v]"
    using len by (simp add: take_Suc_conv_app_nth)
  moreover have "drop n (p[i := ?v]) = drop n p"
    using lt by simp
  moreover have "[i..<n] = i # [Suc i..<n]"
    using lt by (simp add: upt_conv_Cons)
  ultimately show ?case
    using lt len step by (subst aks_loop.simps) (simp add: wr_def)
qed

lemma significance_levels_nth:
  "k < n \<Longrightarrow> significance_levels c n ! k =
     (if k < 2 then 0 else (1 - 9 / 10) * c * (9 / 10) ^ (k - 2))"
  by (simp add: significance_levels_def)

lemma length_significance_levels: "length (significance_levels c n) = n"
  by (simp add: significance_levels_def)

lemma bound_init_aks_result:
  assumes "confidence b = Some c" and "ak_table b = Some ak" and "length ak = max_n b + 1"
    and "2 \<le> max_n b" and "max_n b + 1 < SIZE_WRAP"
  shows "bound_init_aks b = Inr (b\<lparr>ak_table := Some (significance_levels c (max_n b + 1))\<rparr>)"
proof -
  let ?n = "max_n b + 1"
  let ?a1 = "(1 - 9 / 10) * c"
  let ?p = "ak[0 := 0, 1 := 0, 2 := ?a1]"
  let ?q = "take 3 ?p @ map (\<lambda>k. ?a1 * (9 / 10) ^ (k - 2)) [3..<?n] @ drop ?n ?p"
  have loop: "aks_loop ?a1 (9 / 10) 3 ?n (Some ?p) = Inr (Some ?q)"
    using assms by (intro aks_loop_result) simp_all
  have lenq: "length ?q = ?n"
    using assms by (simp del: upt_Suc)
  have "?q = significance_levels c ?n"
  proof (rule nth_equalityI)
    show "length ?q = length (significance_levels c ?n)"
      using lenq by (simp only: length_significance_levels)
  next
    fix k assume "k < length ?q"
    then have k: "k < ?n" using lenq by simp
    show "?q ! k = significance_levels c ?n ! k"
    proof (cases "k < 3")
      case True
      then consider "k = 0" | "k = 1" | "k = 2" by linarith
      then show ?thesis
        using assms k by cases (simp_all add: nth_append significance_levels_nth del: upt_Suc)
    next
      case False
      then show ?thesis
        using assms k by (simp add: nth_append significance_levels_nth del: upt_Suc)
    qed
  qed
  with loop have l2: "aks_loop ?a1 (9 / 10) 3 ?n (Some ?p) = Inr (Some (significance_levels c ?n))"
    by simp
  have w0: "wr (ak_table b) 0 0 = Inr (Some (ak[0 := 0]))"
    using assms by (simp add: wr_def)
  have w1: "wr (Some (ak[0 := 0])) 1 0 = Inr (Some (ak[0 := 0, 1 := 0]))"
    using assms by (simp add: wr_def)
  have w2: "wr (Some (ak[0 := 0, 1 := 0])) 2 ?a1 = Inr (Some ?p)"
    using assms by (simp add: wr_def)
  have m: "(max_n b + 1) mod SIZE_WRAP = ?n"
    using assms by simp
  show ?thesis
    unfolding bound_init_aks_def Let_def assms(1) option.case w0 w1 w2 sum.case m l2 ..
qed




subsection \<open>What the build loops preserve\<close>

lemma wr_Inr_iff:
  "wr p i v = Inr p' \<longleftrightarrow> (\<exists>xs. p = Some xs \<and> i < length xs \<and> p' = Some (xs[i := v]))"
  by (auto simp: wr_def split: option.splits)

lemma rd_Inr_iff:
  "rd p i = Inr x \<longleftrightarrow> (\<exists>xs. p = Some xs \<and> i < length xs \<and> x = xs ! i)"
  by (auto simp: rd_def split: option.splits)

lemma st_ok_swap: "st_ok L (swap st) = st_ok L st"
  by (auto simp: st_ok_def swap_def)

lemma continue_condition_Inr:
  assumes "continue_condition jstart h c b = Inr (cont, b')"
  shows "(cont \<and> b' = b) \<or>
     (\<not> cont \<and> jstart = (h + SIZE_WRAP - 1) mod SIZE_WRAP \<and>
       (\<exists>ak pr. ak_table b = Some ak \<and> h < length ak \<and> c \<le> ak ! h \<and>
          pr_failure b = Some pr \<and> h < length pr \<and> b' = b\<lparr>pr_failure := Some (pr[h := c])\<rparr>))"
  using assms
  by (auto simp: continue_condition_def rd_Inr_iff wr_Inr_iff split: if_splits sum.splits)

lemma fill_vector_frame:
  assumes "fill_vector nk h i j (js, c, st) = Inr (j', js', c', st')"
  shows "j' = max j h \<and> (st_ok L st \<longrightarrow> st_ok L st') \<and>
     (js' = js \<or> (\<exists>jj. j \<le> jj \<and> jj < h \<and> js' = jj + 1 \<and> rd nk (jj + 1) = Inr (NUM_PROBES i jj)))"
  using assms
proof (induction nk h i j "(js, c, st)" arbitrary: js c st rule: fill_vector.induct)
  case (1 nk h i j js c st)
  show ?case
  proof (cases "j < h")
    case False
    with "1.prems" show ?thesis by (simp add: fill_vector.simps)
  next
    case True
    from "1.prems" True obtain cv stop where
      cv: "calculate st h j = Inr cv" and stop: "rd nk (j + 1) = Inr stop"
      by (subst (asm) fill_vector.simps) (auto split: sum.splits)
    show ?thesis
    proof (cases "NUM_PROBES i j = stop")
      case absorb: True
      from "1.prems" True cv stop absorb obtain s f where
        s: "wr (second st) j 0 = Inr s" and f: "wr (first st) j 0 = Inr f" and
        rec: "fill_vector nk h i (Suc j) (j + 1, cv, \<lparr>first = f, second = s\<rparr>) = Inr (j', js', c', st')"
        by (subst (asm) fill_vector.simps) (auto split: sum.splits)
      from "1.hyps"(1) [OF True cv stop absorb s f rec]
      have ih: "j' = max (Suc j) h \<and> (st_ok L \<lparr>first = f, second = s\<rparr> \<longrightarrow> st_ok L st') \<and>
         (js' = j + 1 \<or> (\<exists>jj. Suc j \<le> jj \<and> jj < h \<and> js' = jj + 1 \<and>
            rd nk (jj + 1) = Inr (NUM_PROBES i jj)))" .
      have ok: "st_ok L st \<Longrightarrow> st_ok L \<lparr>first = f, second = s\<rparr>"
        using s f by (auto simp: st_ok_def wr_Inr_iff)
      from ih ok True stop absorb show ?thesis
        by (auto simp: max_def intro: exI [of _ j])
    next
      case noabs: False
      from "1.prems" True cv stop noabs obtain s where
        s: "wr (second st) j cv = Inr s" and
        rec: "fill_vector nk h i (Suc j) (js, cv, st\<lparr>second := s\<rparr>) = Inr (j', js', c', st')"
        by (subst (asm) fill_vector.simps) (auto split: sum.splits)
      from "1.hyps"(2) [OF True cv stop noabs s rec]
      have ih: "j' = max (Suc j) h \<and> (st_ok L (st\<lparr>second := s\<rparr>) \<longrightarrow> st_ok L st') \<and>
         (js' = js \<or> (\<exists>jj. Suc j \<le> jj \<and> jj < h \<and> js' = jj + 1 \<and>
            rd nk (jj + 1) = Inr (NUM_PROBES i jj)))" .
      have ok: "st_ok L st \<Longrightarrow> st_ok L (st\<lparr>second := s\<rparr>)"
        using s by (auto simp: st_ok_def wr_Inr_iff)
      from ih ok True show ?thesis
        by (auto simp: max_def)
    qed
  qed
qed

lemma row_loop_frame:
  assumes "row_loop n h v = Inr v'"
  shows "(\<exists>ak pr c. ak_table (v_bound v) = Some ak \<and> h < length ak \<and> c \<le> ak ! h \<and>
            pr_failure (v_bound v) = Some pr \<and> h < length pr \<and>
            v_bound v' = (v_bound v)\<lparr>pr_failure := Some (pr[h := c])\<rparr>) \<and>
         (st_ok L (v_st v) \<longrightarrow> st_ok L (v_st v'))"
  using assms
proof (induction n arbitrary: v)
  case 0
  then show ?case by simp
next
  case (Suc n)
  from Suc.prems obtain cont b where
    cc: "continue_condition (v_jstart v) h (v_cur v) (v_bound v) = Inr (cont, b)"
    by (auto split: sum.splits)
  show ?case
  proof (cases cont)
    case False
    with Suc.prems cc have v': "v' = v\<lparr>v_bound := b\<rparr>" by simp
    from continue_condition_Inr [OF cc] False v' show ?thesis by auto
  next
    case True
    with continue_condition_Inr [OF cc] have b: "b = v_bound v" by simp
    from Suc.prems cc True obtain j js c st where
      fv: "fill_vector (nk_table b) h (v_i v) (v_jstart v) (v_jstart v, v_cur v, v_st v) =
             Inr (j, js, c, st)" and
      rec: "row_loop n h \<lparr>v_i = (v_i v + 1) mod SIZE_WRAP, v_j = j,
               v_jstart = (if v_i v = 1 then 1 else js), v_cur = c, v_bound = b,
               v_st = swap st\<rparr> = Inr v'"
      by (auto split: sum.splits)
    from fill_vector_frame [OF fv, of L] have ok: "st_ok L (v_st v) \<longrightarrow> st_ok L (swap st)"
      by (simp add: st_ok_swap)
    from Suc.IH [OF rec] ok b show ?thesis by simp
  qed
qed

lemma init_first_Inr:
  "init_first j n p = Inr p' \<Longrightarrow> j < n \<Longrightarrow> \<exists>xs. p = Some xs \<and> n \<le> length xs"
proof (induction "n - j" arbitrary: j p)
  case 0
  then show ?case by simp
next
  case (Suc d)
  from Suc.prems obtain q where q: "wr p j 0 = Inr q" and rec: "init_first (Suc j) n q = Inr p'"
    by (subst (asm) init_first.simps) (auto split: sum.splits)
  from q obtain xs where xs: "p = Some xs" "j < length xs" "q = Some (xs[j := 0])"
    by (auto simp: wr_Inr_iff)
  show ?case
  proof (cases "Suc j < n")
    case True
    from Suc.hyps(1) [OF _ rec True] Suc.hyps(2) xs show ?thesis by auto
  next
    case False
    with Suc.prems xs show ?thesis by auto
  qed
qed

lemma init_state_Inr:
  assumes "init_state b st = Inr (st1, c)" and "0 < max_n b"
  shows "c = 1 \<and> first st \<noteq> None \<and> second st \<noteq> None \<and> (st_ok L st \<longrightarrow> st_ok L st1)"
proof -
  from assms(1) obtain f s0 s1 where
    f: "init_first 0 (max_n b) (first st) = Inr f" and
    s0: "wr (second st) 0 0 = Inr s0" and s1: "wr s0 1 1 = Inr s1" and
    st1: "st1 = \<lparr>first = f, second = s1\<rparr>" and c: "c = 1"
    by (auto simp: init_state_def split: sum.splits)
  from init_first_Inr [OF f assms(2)] obtain fl where fl: "first st = Some fl" "max_n b \<le> length fl"
    by auto
  have sn: "second st \<noteq> None"
    using s0 by (auto simp: wr_Inr_iff)
  have "f = Some (take 0 fl @ replicate (max_n b - 0) 0 @ drop (max_n b) fl)"
    using f fl by (simp add: init_first_zero)
  then have "st_ok L st \<longrightarrow> st_ok L st1"
    using s0 s1 st1 fl by (auto simp: st_ok_def wr_Inr_iff)
  with c fl sn show ?thesis by simp
qed

lemma rd_update:
  "rd (Some (xs[i := v])) k = (if k = i \<and> i < length xs then Inr v else rd (Some xs) k)"
  by (simp add: rd_def)

lemma build_frame_done: "build_frame h0 m b b \<longleftrightarrow> m < h0 \<or> (\<forall>h. h0 \<le> h \<and> h \<le> m \<longrightarrow>
        (\<exists>p a. rd (pr_failure b) h = Inr p \<and> rd (ak_table b) h = Inr a \<and> p \<le> a) \<and>
        (\<exists>x. rd (nk_table b) h = Inr x))"
  by (auto simp: build_frame_def)

lemma build_frame_step:
  assumes ak: "ak_table b = Some ak" "h0 < length ak" "c \<le> ak ! h0"
    and pr: "pr_failure b = Some pr" "h0 < length pr"
    and nk: "wr (nk_table b) h0 x = Inr nk'"
    and rest: "build_frame (Suc h0) m (b\<lparr>pr_failure := Some (pr[h0 := c]), nk_table := nk'\<rparr>) b'"
    and le: "h0 \<le> m"
  shows "build_frame h0 m b b'"
proof -
  from nk obtain xs where xs: "nk_table b = Some xs" "h0 < length xs" "nk' = Some (xs[h0 := x])"
    by (auto simp: wr_Inr_iff)
  let ?b2 = "b\<lparr>pr_failure := Some (pr[h0 := c]), nk_table := nk'\<rparr>"
  have r1: "rd (nk_table b') k = rd (nk_table b) k \<and> rd (pr_failure b') k = rd (pr_failure b) k"
    if "k < h0 \<or> m < k" for k
  proof -
    from that le have k: "k < Suc h0 \<or> m < k" and ne: "k \<noteq> h0" by auto
    from rest k have "rd (nk_table b') k = rd (nk_table ?b2) k \<and>
        rd (pr_failure b') k = rd (pr_failure ?b2) k"
      unfolding build_frame_def by blast
    with ne xs pr show ?thesis by (simp add: rd_update)
  qed
  have r2: "(\<exists>p a. rd (pr_failure b') h = Inr p \<and> rd (ak_table b) h = Inr a \<and> p \<le> a) \<and>
        (\<exists>x. rd (nk_table b') h = Inr x)" if "h0 \<le> h \<and> h \<le> m" for h
  proof (cases "h = h0")
    case True
    from rest have "rd (nk_table b') h0 = rd (nk_table ?b2) h0 \<and>
        rd (pr_failure b') h0 = rd (pr_failure ?b2) h0"
      unfolding build_frame_def by (metis lessI)
    with True xs pr ak show ?thesis by (simp add: rd_update rd_def)
  next
    case False
    with that have "Suc h0 \<le> h \<and> h \<le> m" by auto
    with rest have "(\<exists>p a. rd (pr_failure b') h = Inr p \<and> rd (ak_table ?b2) h = Inr a \<and> p \<le> a) \<and>
        (\<exists>x. rd (nk_table b') h = Inr x)"
      unfolding build_frame_def by blast
    then show ?thesis by simp
  qed
  from rest have basics: "confidence b' = confidence b \<and> max_n b' = max_n b \<and>
     ak_table b' = ak_table b \<and> state b' = state b \<and>
     map_option length (nk_table b') = map_option length (nk_table b) \<and>
     map_option length (pr_failure b') = map_option length (pr_failure b)"
    using xs pr by (simp add: build_frame_def)
  from basics r1 r2 show ?thesis
    unfolding build_frame_def by blast
qed

lemma hypothesis_loop_frame:
  assumes "hypothesis_loop n m h0 j b st = Inr (b', st')" and "0 < max_n b"
  shows "build_frame h0 m b b' \<and> (st_ok L st \<longrightarrow> st_ok L st') \<and>
         (h0 \<le> m \<longrightarrow> first st \<noteq> None \<and> second st \<noteq> None)"
  using assms
proof (induction n m h0 j b st rule: hypothesis_loop.induct)
  case (1 n m h0 j b st)
  show ?case
  proof (cases "h0 \<le> m")
    case False
    with "1.prems" have "b' = b" "st' = st"
      by (simp_all add: hypothesis_loop.simps)
    with False show ?thesis by (simp add: build_frame_done)
  next
    case True
    from "1.prems"(1) True obtain st1 c v nk' where
      ini: "init_state b st = Inr (st1, c)" and
      rl: "row_loop n h0 \<lparr>v_i = 1, v_j = j, v_jstart = 2, v_cur = c, v_bound = b, v_st = st1\<rparr> = Inr v" and
      w: "wr (nk_table (v_bound v)) h0
            ((NUM_PROBES (v_i v) (v_j v) + SIZE_WRAP - 2) mod SIZE_WRAP) = Inr nk'" and
      rec: "hypothesis_loop n m (Suc h0) (v_j v) ((v_bound v)\<lparr>nk_table := nk'\<rparr>) (v_st v) = Inr (b', st')"
      by (subst (asm) hypothesis_loop.simps) (auto split: sum.splits)
    from init_state_Inr [OF ini "1.prems"(2), of L]
    have i1: "first st \<noteq> None" "second st \<noteq> None" "st_ok L st \<longrightarrow> st_ok L st1" by auto
    from row_loop_frame [OF rl, of L] obtain ak pr cx where
      ak: "ak_table b = Some ak" "h0 < length ak" "cx \<le> ak ! h0" and
      pr: "pr_failure b = Some pr" "h0 < length pr" and
      vb: "v_bound v = b\<lparr>pr_failure := Some (pr[h0 := cx])\<rparr>" and
      ok: "st_ok L st1 \<longrightarrow> st_ok L (v_st v)"
      by auto
    have mx: "0 < max_n ((v_bound v)\<lparr>nk_table := nk'\<rparr>)"
      using vb "1.prems"(2) by simp
    from "1.IH" [OF True ini refl rl w rec mx]
    have ih: "build_frame (Suc h0) m ((v_bound v)\<lparr>nk_table := nk'\<rparr>) b'"
      "st_ok L (v_st v) \<longrightarrow> st_ok L st'" by auto
    have w': "wr (nk_table b) h0 ((NUM_PROBES (v_i v) (v_j v) + SIZE_WRAP - 2) mod SIZE_WRAP) = Inr nk'"
      using w vb by simp
    have "build_frame h0 m b b'"
      using ih(1) unfolding vb
      by (intro build_frame_step [OF ak pr w' _ True]) simp
    with i1 ok ih(2) show ?thesis by simp
  qed
qed

lemma rd_0_1:
  "nk_table b = Some nk \<Longrightarrow> length nk = max_n b + 1 \<Longrightarrow> 2 \<le> max_n b \<Longrightarrow>
   rd (nk_table b) 0 = Inr (nk ! 0) \<and> rd (nk_table b) 1 = Inr (nk ! 1)"
  by (simp add: rd_def)

lemma hypothesis_loop_inv:
  assumes inv: "table_inv h0 b" and h0: "2 \<le> h0" and st: "state b = Some st"
    and run: "hypothesis_loop n (max_n b) h0 j b st = Inr (b', st')"
  shows "table_inv (max_n b + 1) (b'\<lparr>state := Some st'\<rparr>) \<and> max_n b' = max_n b \<and>
         confidence b' = confidence b"
proof -
  let ?m = "max_n b"
  from inv have m: "2 \<le> ?m" "?m + 1 < SIZE_WRAP" by (simp_all add: table_inv_def)
  from inv obtain c nk pr where
    c: "confidence b = Some c" "ak_table b = Some (significance_levels c (?m + 1))" and
    nk: "nk_table b = Some nk" "length nk = ?m + 1" "nk ! 0 = 0" "nk ! 1 = 0" and
    pr: "pr_failure b = Some pr" "length pr = ?m + 1" and
    ok: "st_ok ?m st" and
    old: "\<forall>h. 2 \<le> h \<and> h < h0 \<and> h \<le> ?m \<longrightarrow>
        (\<exists>p a. rd (pr_failure b) h = Inr p \<and> rd (ak_table b) h = Inr a \<and> p \<le> a)"
    using st by (auto simp: table_inv_def)
  have pos: "0 < ?m" using m by simp
  from hypothesis_loop_frame [OF run pos, of ?m] ok
  have fr: "build_frame h0 ?m b b'" and ok': "st_ok ?m st'" by auto
  from fr have same: "confidence b' = confidence b" "max_n b' = ?m" "ak_table b' = ak_table b"
    and lens: "map_option length (nk_table b') = map_option length (nk_table b)"
      "map_option length (pr_failure b') = map_option length (pr_failure b)"
    and keep: "\<And>k. k < h0 \<Longrightarrow> rd (nk_table b') k = rd (nk_table b) k \<and>
        rd (pr_failure b') k = rd (pr_failure b) k"
    and new: "\<And>h. h0 \<le> h \<Longrightarrow> h \<le> ?m \<Longrightarrow>
        (\<exists>p a. rd (pr_failure b') h = Inr p \<and> rd (ak_table b) h = Inr a \<and> p \<le> a)"
    by (auto simp: build_frame_def)
  from lens nk pr obtain nk' pr' where
    nk': "nk_table b' = Some nk'" "length nk' = ?m + 1" and
    pr': "pr_failure b' = Some pr'" "length pr' = ?m + 1"
    by auto
  have z: "nk' ! 0 = 0 \<and> nk' ! 1 = 0"
    using keep [of 0] keep [of 1] h0 nk nk' m by (simp add: rd_def)
  have all: "\<exists>p a. rd (pr_failure b') h = Inr p \<and> rd (ak_table b') h = Inr a \<and> p \<le> a"
    if "2 \<le> h" "h \<le> ?m" for h
  proof (cases "h < h0")
    case True
    with old that keep [of h] same show ?thesis by simp
  next
    case False
    with new [of h] that same show ?thesis by simp
  qed
  show ?thesis
    unfolding table_inv_def using m same c nk' z pr' ok' all by simp
qed

lemma mod_wrap_bound: "m < (m + 1) mod SIZE_WRAP \<Longrightarrow> m + 1 < SIZE_WRAP"
proof (rule ccontr)
  assume a: "m < (m + 1) mod SIZE_WRAP" and "\<not> m + 1 < SIZE_WRAP"
  then have "SIZE_WRAP \<le> m + 1" by simp
  moreover have "(m + 1) mod SIZE_WRAP < SIZE_WRAP" by (simp add: SIZE_WRAP_def)
  ultimately show False using a by linarith
qed

lemma hypothesis_loop_in_range:
  assumes "hypothesis_loop n m h0 j b st = Inr (b', st')" and "0 < max_n b" and "h0 \<le> m"
    and "map_option length (nk_table b) = Some ((m + 1) mod SIZE_WRAP)"
  shows "m + 1 < SIZE_WRAP"
proof -
  from hypothesis_loop_frame [OF assms(1,2), of 0] have fr: "build_frame h0 m b b'" by simp
  with assms(3) obtain x where "rd (nk_table b') m = Inr x"
    unfolding build_frame_def by blast
  then obtain xs where "nk_table b' = Some xs" "m < length xs"
    by (auto simp: rd_Inr_iff)
  moreover from fr have "map_option length (nk_table b') = map_option length (nk_table b)"
    by (simp add: build_frame_def)
  ultimately have "m < (m + 1) mod SIZE_WRAP" using assms(4) by simp
  then show ?thesis by (rule mod_wrap_bound)
qed

lemma hypothesis_loop_pointers:
  assumes "hypothesis_loop n m h0 j b st = Inr (b', st')" and "0 < max_n b" and "h0 \<le> m"
  shows "first st \<noteq> None \<and> second st \<noteq> None \<and> nk_table b \<noteq> None \<and> ak_table b \<noteq> None \<and>
         pr_failure b \<noteq> None"
proof -
  from hypothesis_loop_frame [OF assms(1,2), of 0] assms(3)
  have fr: "build_frame h0 m b b'" and v: "first st \<noteq> None" "second st \<noteq> None" by auto
  from fr assms(3) obtain p a x where
    "rd (pr_failure b') h0 = Inr p" "rd (ak_table b) h0 = Inr a" "rd (nk_table b') h0 = Inr x"
    unfolding build_frame_def by blast
  moreover from fr have "map_option length (nk_table b') = map_option length (nk_table b)"
    "map_option length (pr_failure b') = map_option length (pr_failure b)"
    by (simp_all add: build_frame_def)
  ultimately show ?thesis using v
    by (cases "nk_table b"; cases "pr_failure b") (auto simp: rd_Inr_iff)
qed

lemma aks_loop_length:
  "aks_loop a1 r i n p = Inr p' \<Longrightarrow> map_option length p' = map_option length p"
proof (induction "n - i" arbitrary: i p)
  case 0
  then show ?case by (subst (asm) aks_loop.simps) simp
next
  case (Suc d)
  then have lt: "i < n" by simp
  from Suc.prems lt obtain q where q: "wr p i (a1 * r ^ (i - 2)) = Inr q"
    and rec: "aks_loop a1 r (Suc i) n q = Inr p'"
    by (subst (asm) aks_loop.simps) (auto split: sum.splits)
  have "map_option length p' = map_option length q"
    using Suc.hyps(2) lt by (intro Suc.hyps(1) [OF _ rec]) simp
  with q show ?case by (auto simp: wr_Inr_iff)
qed

lemma bound_init_aks_Inr:
  assumes "bound_init_aks b = Inr b2"
  shows "\<exists>c ak ak'. confidence b = Some c \<and> ak_table b = Some ak \<and> 2 < length ak \<and>
           b2 = b\<lparr>ak_table := Some ak'\<rparr> \<and> length ak' = length ak"
proof -
  from assms obtain c p0 p1 p2 p3 where
    c: "confidence b = Some c" and
    w: "wr (ak_table b) 0 0 = Inr p0" "wr p0 1 0 = Inr p1" "wr p1 2 ((1 - 9 / 10) * c) = Inr p2" and
    l: "aks_loop ((1 - 9 / 10) * c) (9 / 10) 3 ((max_n b + 1) mod SIZE_WRAP) p2 = Inr p3" and
    b2: "b2 = b\<lparr>ak_table := p3\<rparr>"
    by (auto simp: bound_init_aks_def Let_def split: option.splits sum.splits)
  from w obtain ak where ak: "ak_table b = Some ak" "2 < length ak"
    "p2 = Some (ak[0 := 0, 1 := 0, 2 := (1 - 9 / 10) * c])"
    by (auto simp: wr_Inr_iff)
  from aks_loop_length [OF l] ak obtain ak' where "p3 = Some ak'" "length ak' = length ak"
    by auto
  with c ak b2 show ?thesis by auto
qed

lemma table_inv_weaken: "table_inv h b \<Longrightarrow> h' \<le> h \<Longrightarrow> table_inv h' b"
  unfolding table_inv_def by (meson less_le_trans)

lemma realloc_Some:
  "realloc (Some xs) (Some g) n = Some (take n xs @ map g [length xs..<n])"
  by (simp add: realloc_def)

lemma realloc_None_iff: "realloc p a n = None \<longleftrightarrow> a = None"
  by (auto simp: realloc_def split: option.splits)

lemma reallocate_bound_True:
  assumes "reallocate_bound a b e = Inr (True, b1)"
  shows "\<exists>st gf gs gn ga gp. state b = Some st \<and>
      r_first a = Some gf \<and> r_second a = Some gs \<and> r_nk a = Some gn \<and> r_ak a = Some ga \<and>
      r_pr a = Some gp \<and>
      b1 = b\<lparr>state := Some \<lparr>first = realloc (first st) (Some gf) e,
                             second = realloc (second st) (Some gs) e\<rparr>,
             nk_table := realloc (nk_table b) (Some gn) ((e + 1) mod SIZE_WRAP),
             ak_table := realloc (ak_table b) (Some ga) ((e + 1) mod SIZE_WRAP),
             pr_failure := realloc (pr_failure b) (Some gp) ((e + 1) mod SIZE_WRAP)\<rparr>"
  using assms
  by (cases "state b")
     (auto simp: reallocate_bound_def Let_def realloc_None_iff split: if_splits)

lemma reallocate_bound_False:
  assumes "reallocate_bound a b e = Inr (False, b1)"
  shows "max_n b1 = max_n b \<and>
     (\<exists>st1. state b1 = Some st1 \<and>
        (first st1 = None \<or> second st1 = None \<or> nk_table b1 = None \<or> ak_table b1 = None \<or>
         pr_failure b1 = None))"
  using assms
  by (cases "state b")
     (auto simp: reallocate_bound_def Let_def split: if_splits)

lemma significance_levels_prefix:
  "k < n \<Longrightarrow> n \<le> n' \<Longrightarrow> significance_levels c n' ! k = significance_levels c n ! k"
  by (simp add: significance_levels_nth)

lemma grow_inv:
  assumes inv: "table_inv (max_n b + 1) b" and st: "state b = Some st"
    and e: "max_n b < e" "e + 1 < SIZE_WRAP"
    and c: "confidence b = Some c"
  shows "table_inv (max_n b + 1)
     (b\<lparr>state := Some \<lparr>first = realloc (first st) (Some gf) e,
                          second = realloc (second st) (Some gs) e\<rparr>,
        nk_table := realloc (nk_table b) (Some gn) (e + 1),
        ak_table := Some (significance_levels c (e + 1)),
        pr_failure := realloc (pr_failure b) (Some gp) (e + 1),
        max_n := e\<rparr>)"
proof -
  let ?m = "max_n b"
  from inv have m: "2 \<le> ?m" by (simp add: table_inv_def)
  from inv obtain nk pr where
    ak: "ak_table b = Some (significance_levels c (?m + 1))" and
    nk: "nk_table b = Some nk" "length nk = ?m + 1" "nk ! 0 = 0" "nk ! 1 = 0" and
    pr: "pr_failure b = Some pr" "length pr = ?m + 1" and
    ok: "st_ok ?m st" and
    old: "\<forall>h. 2 \<le> h \<and> h < ?m + 1 \<and> h \<le> ?m \<longrightarrow>
        (\<exists>p a. rd (pr_failure b) h = Inr p \<and> rd (ak_table b) h = Inr a \<and> p \<le> a)"
    using st c by (auto simp: table_inv_def)
  from ok obtain f s where fs: "first st = Some f" "second st = Some s" "length f = ?m" "length s = ?m"
    by (auto simp: st_ok_def)
  have ok': "st_ok e \<lparr>first = realloc (first st) (Some gf) e, second = realloc (second st) (Some gs) e\<rparr>"
    using fs e by (simp add: st_ok_def realloc_Some)
  have nk': "\<exists>nk'. realloc (nk_table b) (Some gn) (e + 1) = Some nk' \<and> length nk' = e + 1 \<and>
       nk' ! 0 = 0 \<and> nk' ! 1 = 0"
    using nk e m by (simp add: realloc_Some nth_append)
  have pr': "\<exists>pr'. realloc (pr_failure b) (Some gp) (e + 1) = Some pr' \<and> length pr' = e + 1"
    using pr e by (simp add: realloc_Some)
  have keep: "\<exists>p a. rd (realloc (pr_failure b) (Some gp) (e + 1)) h = Inr p \<and>
       rd (Some (significance_levels c (e + 1))) h = Inr a \<and> p \<le> a"
    if "2 \<le> h" "h \<le> ?m" for h
  proof -
    from old that obtain p a where pa: "rd (pr_failure b) h = Inr p" "rd (ak_table b) h = Inr a" "p \<le> a"
      by auto
    have "rd (realloc (pr_failure b) (Some gp) (e + 1)) h = Inr p"
      using pa(1) pr that e by (simp add: realloc_Some rd_def nth_append)
    moreover have "rd (Some (significance_levels c (e + 1))) h = Inr a"
    proof -
      have "significance_levels c (e + 1) ! h = significance_levels c (?m + 1) ! h"
        using that e by (intro significance_levels_prefix) simp_all
      moreover have "significance_levels c (?m + 1) ! h = a"
        using pa(2) ak that by (simp add: rd_def length_significance_levels)
      ultimately show ?thesis
        using that e by (simp add: rd_def length_significance_levels)
    qed
    ultimately show ?thesis using pa(3) by simp
  qed
  show ?thesis
    unfolding table_inv_def using m e ok' nk' pr' keep c by simp
qed

lemma bound_build_cases:
  assumes run: "bound_build n a (Some b) e = Inr (Some b')"
    and nn: "nk_table b \<noteq> None" "state b \<noteq> None"
  shows "\<exists>hyp b0 st bb st'.
      ((e \<le> max_n b \<and> hyp = HSTART \<and> b0 = b) \<or>
       (max_n b < e \<and> reallocate_bound a b e = Inr (False, b0) \<and> hyp = HSTART) \<or>
       (max_n b < e \<and> hyp = (max_n b + 1) mod SIZE_WRAP \<and>
          (\<exists>b1. reallocate_bound a b e = Inr (True, b1) \<and>
                bound_init_aks (b1\<lparr>max_n := e\<rparr>) = Inr b0))) \<and>
      state b0 = Some st \<and> hypothesis_loop n (max_n b0) hyp 0 b0 st = Inr (bb, st') \<and>
      b' = bb\<lparr>state := Some st'\<rparr>"
proof (cases "max_n b < e")
  case False
  with run nn show ?thesis
    by (auto simp: bound_build_def split: option.splits sum.splits)
next
  case True
  from run nn True obtain ok b1 where rb: "reallocate_bound a b e = Inr (ok, b1)"
    by (auto simp: bound_build_def split: sum.splits)
  show ?thesis
  proof (cases ok)
    case False
    with run nn True rb show ?thesis
      by (auto simp: bound_build_def split: option.splits sum.splits)
  next
    case ok: True
    with run nn True rb obtain b0 where "bound_init_aks (b1\<lparr>max_n := e\<rparr>) = Inr b0"
      by (auto simp: bound_build_def split: sum.splits)
    with run nn True rb ok show ?thesis
      by (auto simp: bound_build_def split: option.splits sum.splits)
  qed
qed

lemma bound_build_inv_gen:
  assumes inv0: "table_inv (if e \<le> max_n b then 2 else max_n b + 1) b"
    and run: "bound_build n a (Some b) e = Inr (Some b')"
  shows "table_inv (max_n b' + 1) b' \<and> max_n b' = max e (max_n b) \<and> confidence b' = confidence b"
proof -
  let ?m = "max_n b"
  from inv0 have m: "2 \<le> ?m" "?m + 1 < SIZE_WRAP" and nn: "nk_table b \<noteq> None" "state b \<noteq> None"
    by (auto simp: table_inv_def)
  from inv0 obtain c where c: "confidence b = Some c" by (auto simp: table_inv_def)
  from bound_build_cases [OF run nn] obtain hyp b0 st bb st' where
    cs: "(e \<le> ?m \<and> hyp = HSTART \<and> b0 = b) \<or>
       (?m < e \<and> reallocate_bound a b e = Inr (False, b0) \<and> hyp = HSTART) \<or>
       (?m < e \<and> hyp = (?m + 1) mod SIZE_WRAP \<and>
          (\<exists>b1. reallocate_bound a b e = Inr (True, b1) \<and>
                bound_init_aks (b1\<lparr>max_n := e\<rparr>) = Inr b0))" and
    st: "state b0 = Some st" and
    hl: "hypothesis_loop n (max_n b0) hyp 0 b0 st = Inr (bb, st')" and
    b': "b' = bb\<lparr>state := Some st'\<rparr>"
    by blast
  from cs consider
    (same) "e \<le> ?m" "hyp = HSTART" "b0 = b" |
    (failed) "?m < e" "reallocate_bound a b e = Inr (False, b0)" "hyp = HSTART" |
    (grown) b1 where "?m < e" "hyp = (?m + 1) mod SIZE_WRAP"
      "reallocate_bound a b e = Inr (True, b1)" "bound_init_aks (b1\<lparr>max_n := e\<rparr>) = Inr b0"
    by blast
  then show ?thesis
  proof cases
    case same
    have "table_inv 2 b" using inv0 same(1) by simp
    from hypothesis_loop_inv [OF this _ _ hl [unfolded same HSTART_def]] st same b' c
    show ?thesis by (simp add: max_def)
  next
    case failed
    from reallocate_bound_False [OF failed(2)] st
    have mx: "max_n b0 = ?m" and bad: "first st = None \<or> second st = None \<or> nk_table b0 = None \<or>
        ak_table b0 = None \<or> pr_failure b0 = None" by auto
    have "0 < max_n b0" "hyp \<le> max_n b0" using mx m failed(3) by (simp_all add: HSTART_def)
    from hypothesis_loop_pointers [OF hl this] bad have False by auto
    then show ?thesis by (rule FalseE)
  next
    case grown
    have inv: "table_inv (?m + 1) b" using inv0 grown(1) by simp
    from reallocate_bound_True [OF grown(3)] obtain st0 gf gs gn ga gp where
      st0: "state b = Some st0" and
      b1: "b1 = b\<lparr>state := Some \<lparr>first = realloc (first st0) (Some gf) e,
                             second = realloc (second st0) (Some gs) e\<rparr>,
             nk_table := realloc (nk_table b) (Some gn) ((e + 1) mod SIZE_WRAP),
             ak_table := realloc (ak_table b) (Some ga) ((e + 1) mod SIZE_WRAP),
             pr_failure := realloc (pr_failure b) (Some gp) ((e + 1) mod SIZE_WRAP)\<rparr>"
      by blast
    from inv obtain nk akl where nk: "nk_table b = Some nk" and akl: "ak_table b = Some akl"
      by (auto simp: table_inv_def)
    from bound_init_aks_Inr [OF grown(4)] obtain ak' where
      b0: "b0 = b1\<lparr>max_n := e, ak_table := Some ak'\<rparr>" by auto
    have hyp: "hyp = ?m + 1" using grown(2) m by simp
    have nklen: "map_option length (nk_table b0) = Some ((max_n b0 + 1) mod SIZE_WRAP)"
      using b0 b1 nk by (simp add: realloc_Some)
    have "0 < max_n b0" "hyp \<le> max_n b0" using b0 hyp grown(1) by simp_all
    from hypothesis_loop_in_range [OF hl this nklen] have e: "e + 1 < SIZE_WRAP"
      using b0 by simp
    have "bound_init_aks (b1\<lparr>max_n := e\<rparr>) =
        Inr (b1\<lparr>max_n := e\<rparr>\<lparr>ak_table := Some (significance_levels c (max_n (b1\<lparr>max_n := e\<rparr>) + 1))\<rparr>)"
      using b1 c akl e grown(1) m
      by (intro bound_init_aks_result [where ak = "the (ak_table b1)"]) (simp_all add: realloc_Some)
    with grown(4) have b0': "b0 = b1\<lparr>max_n := e, ak_table := Some (significance_levels c (e + 1))\<rparr>"
      by simp
    have b0'': "b0 = b\<lparr>state := Some \<lparr>first = realloc (first st0) (Some gf) e,
                          second = realloc (second st0) (Some gs) e\<rparr>,
        nk_table := realloc (nk_table b) (Some gn) (e + 1),
        ak_table := Some (significance_levels c (e + 1)),
        pr_failure := realloc (pr_failure b) (Some gp) (e + 1),
        max_n := e\<rparr>"
      unfolding b0' b1 using e by simp
    have i0: "table_inv (?m + 1) b0"
      unfolding b0'' by (rule grow_inv [OF inv st0 grown(1) e c])
    have h2: "2 \<le> ?m + 1" using m by simp
    have mb0: "max_n b0 = e" using b0 by simp
    from hypothesis_loop_inv [OF i0 h2 st hl [unfolded hyp]] b' mb0 grown(1) c b0''
    show ?thesis by (simp add: max_def)
  qed
qed

lemma bound_build_inv:
  assumes inv: "table_inv (max_n b + 1) b" and run: "bound_build n a (Some b) e = Inr (Some b')"
  shows "table_inv (max_n b' + 1) b' \<and> max_n b' = max e (max_n b) \<and> confidence b' = confidence b"
proof -
  have "table_inv (if e \<le> max_n b then 2 else max_n b + 1) b"
    using inv by (auto intro: table_inv_weaken simp: table_inv_def)
  from bound_build_inv_gen [OF this run] show ?thesis .
qed

lemma bound_create_Inr:
  assumes "bound_create n a gc mi mb = Inr (Some b)"
  shows "\<exists>gf gs b1. a_bound a \<and> a_nk a \<and> a_ak a \<and> a_pr a \<and> a_state a \<and>
     a_first a = Some gf \<and> a_second a = Some gs \<and> 1 < (mi + 1) mod SIZE_WRAP \<and>
     bound_init_aks \<lparr>confidence = node_confidence gc mb, max_n = mi,
        nk_table = Some ((replicate ((mi + 1) mod SIZE_WRAP) 0)[0 := 0, 1 := 0]),
        ak_table = Some (replicate ((mi + 1) mod SIZE_WRAP) 0),
        pr_failure = Some (replicate ((mi + 1) mod SIZE_WRAP) 0),
        state = Some \<lparr>first = Some (map gf [0..<mi]), second = Some (map gs [0..<mi])\<rparr>\<rparr> = Inr b1 \<and>
     bound_build n no_realloc (Some b1) (max_n b1) = Inr (Some b)"
  using assms
  by (auto simp: bound_create_def calloc_def bound_state_create_def malloc_def wr_Inr_iff
      split: if_splits option.splits sum.splits)

lemma bound_create_inv:
  assumes "bound_create n a gc mi mb = Inr (Some b)"
  shows "table_inv (max_n b + 1) b \<and> max_n b = mi \<and> confidence b = node_confidence gc mb"
proof -
  let ?k = "(mi + 1) mod SIZE_WRAP"
  let ?b0 = "\<lparr>confidence = node_confidence gc mb, max_n = mi,
        nk_table = Some ((replicate ?k 0)[0 := 0, 1 := 0]),
        ak_table = Some (replicate ?k (0::real)),
        pr_failure = Some (replicate ?k (0::real)),
        state = Some \<lparr>first = Some (map gf [0..<mi]), second = Some (map gs [0..<mi])\<rparr>\<rparr>"
  from bound_create_Inr [OF assms] obtain gf gs b1 where
    k1: "1 < ?k" and
    ia: "bound_init_aks \<lparr>confidence = node_confidence gc mb, max_n = mi,
        nk_table = Some ((replicate ?k 0)[0 := 0, 1 := 0]),
        ak_table = Some (replicate ?k 0),
        pr_failure = Some (replicate ?k 0),
        state = Some \<lparr>first = Some (map gf [0..<mi]), second = Some (map gs [0..<mi])\<rparr>\<rparr> = Inr b1" and
    bb: "bound_build n no_realloc (Some b1) (max_n b1) = Inr (Some b)"
    by blast
  let ?b0 = "\<lparr>confidence = node_confidence gc mb, max_n = mi,
        nk_table = Some ((replicate ?k 0)[0 := 0, 1 := 0]),
        ak_table = Some (replicate ?k (0::real)),
        pr_failure = Some (replicate ?k (0::real)),
        state = Some \<lparr>first = Some (map gf [0..<mi]), second = Some (map gs [0..<mi])\<rparr>\<rparr>"
  from bound_init_aks_Inr [OF ia] obtain c ak' where
    c: "node_confidence gc mb = Some c" and k2: "2 < ?k" and
    b1: "b1 = ?b0\<lparr>ak_table := Some ak'\<rparr>"
    by auto
  have mi2: "2 \<le> mi"
  proof (rule ccontr)
    assume "\<not> 2 \<le> mi"
    then have "mi + 1 < 3" by simp
    moreover have "?k \<le> mi + 1" by simp
    ultimately show False using k2 by linarith
  qed
  have nn: "nk_table b1 \<noteq> None" "state b1 \<noteq> None" using b1 by simp_all
  from bound_build_cases [OF bb nn] obtain st bb' st' where
    "state b1 = Some st" and hl: "hypothesis_loop n (max_n b1) HSTART 0 b1 st = Inr (bb', st')"
    by auto
  have "0 < max_n b1" "HSTART \<le> max_n b1"
    "map_option length (nk_table b1) = Some ((max_n b1 + 1) mod SIZE_WRAP)"
    using b1 mi2 by (simp_all add: HSTART_def)
  from hypothesis_loop_in_range [OF hl this] have w: "mi + 1 < SIZE_WRAP"
    using b1 by simp
  then have k: "?k = mi + 1" by simp
  have "bound_init_aks ?b0 = Inr (?b0\<lparr>ak_table := Some (significance_levels c (max_n ?b0 + 1))\<rparr>)"
    using c w mi2 k by (intro bound_init_aks_result [where ak = "replicate ?k 0"]) simp_all
  with ia have b1': "b1 = ?b0\<lparr>ak_table := Some (significance_levels c (mi + 1))\<rparr>"
    by simp
  have "table_inv 2 b1"
    unfolding table_inv_def b1' using mi2 w c k by (auto simp: st_ok_def)
  then have "table_inv (if max_n b1 \<le> max_n b1 then 2 else max_n b1 + 1) b1" by simp
  note r = bound_build_inv_gen [OF this bb]
  have r1: "table_inv (max_n b + 1) b" by (rule r [THEN conjunct1])
  have r2: "max_n b = max_n b1" using r [THEN conjunct2, THEN conjunct1] by simp
  have r3: "confidence b = confidence b1" by (rule r [THEN conjunct2, THEN conjunct2])
  have "max_n b1 = mi" "confidence b1 = node_confidence gc mb"
    using b1' c by simp_all
  with r1 r2 r3 show ?thesis by (simp only: simp_thms)
qed

lemma built_inv: "built N b \<Longrightarrow> table_inv (max_n b + 1) b"
proof (induction rule: built.induct)
  case (created n a c max_interfaces max_branch b)
  then show ?case using bound_create_inv by blast
next
  case (rebuilt b n a end_h b')
  then show ?case using bound_build_inv by blast
qed


subsection \<open>Evaluating the model\<close>

lemma row_loop_numeral:
  "row_loop (numeral k) hypothesis v =
     (case continue_condition (v_jstart v) hypothesis (v_cur v) (v_bound v) of
        Inl e \<Rightarrow> Inl e
      | Inr (c, b) \<Rightarrow>
          if c then
            (case fill_vector (nk_table b) hypothesis (v_i v) (v_jstart v)
                    (v_jstart v, v_cur v, v_st v) of
               Inl e \<Rightarrow> Inl e
             | Inr (j, jstart, cur_state, st) \<Rightarrow>
                 row_loop (pred_numeral k) hypothesis
                   \<lparr>v_i = (v_i v + 1) mod SIZE_WRAP, v_j = j,
                    v_jstart = (if v_i v = 1 then 1 else jstart),
                    v_cur = cur_state, v_bound = b, v_st = swap st\<rparr>)
          else Inr (v\<lparr>v_bound := b\<rparr>))"
  by (simp add: numeral_eq_Suc)

lemma replicate_num: "replicate (numeral k) x = x # replicate (pred_numeral k) x"
  by (simp add: numeral_eq_Suc)

lemmas eval_simps = replicate_num upt_rec
  bound_build_def bound_create_def reallocate_bound_def bound_init_aks_def init_state_def
  continue_condition_def calculate_def swap_def realloc_def calloc_def malloc_def
  bound_state_create_def rd_def wr_def PROBA_HOR_def PROBA_VER_def NUM_PROBES_def HSTART_def
  SIZE_WRAP_def no_realloc_def Let_def
  init_first.simps aks_loop.simps fill_vector.simps hypothesis_loop.simps row_loop_numeral
  example_bound_def example_allocs_def example_batch3_def stale_allocs_def example_stale3_def

lemma node_confidence_example: "node_confidence (19 / 20) (Suc 0) = Some (19 / 20)"
  by (simp add: node_confidence_def)

lemma node_confidence_zero_branch: "node_confidence (19 / 20) 0 = Some 1"
  by (simp add: node_confidence_def)

lemma create_example: "bound_create 40 example_allocs (95 / 100) 2 1 = Inr (Some example_bound)"
  by (simp add: eval_simps node_confidence_example)

lemma create_batch3: "bound_create 40 example_allocs (95 / 100) 3 1 = Inr (Some example_batch3)"
  by (simp add: eval_simps node_confidence_example)

lemma grow_stale3: "bound_build 40 stale_allocs (Some example_bound) 3 = Inr (Some example_stale3)"
  by (simp add: eval_simps)

lemma built_example: "built 40 example_bound"
  using create_example by (rule built.created [OF order_refl])

lemma built_batch3: "built 40 example_batch3"
  using create_batch3 by (rule built.created [OF order_refl])

lemma built_stale3: "built 40 example_stale3"
  using built_example order_refl grow_stale3 by (rule built.rebuilt)

subsection \<open>Stopping correctness and the dummy entries\<close>

text \<open>
  C3.  In every table that \<^verbatim>\<open>bound_create\<close> and later \<^verbatim>\<open>bound_build\<close> calls
  return, the failure probability recorded for a hypothesis \<open>h\<close> in \<open>2..max_n\<close> is at
  most the significance level of \<open>h\<close>.
\<close>

theorem recorded_failure_below_level:
  "built N b \<Longrightarrow> 2 \<le> h \<Longrightarrow> h \<le> max_n b \<Longrightarrow>
   \<exists>p a. rd (pr_failure b) h = Inr p \<and> rd (ak_table b) h = Inr a \<and> p \<le> a"
  using built_inv [of N b] unfolding table_inv_def by simp

theorem recorded_failure_below_level_witness:
  "\<exists>p a. rd (pr_failure example_stale3) 3 = Inr p \<and> rd (ak_table example_stale3) 3 = Inr a \<and> p \<le> a"
  using recorded_failure_below_level [OF built_stale3, of 3]
  by (simp add: example_stale3_def)

text \<open>
  C10.  In every table that \<^verbatim>\<open>bound_create\<close> and later \<^verbatim>\<open>bound_build\<close> calls
  return, entries 0 and 1 of the stopping-point table and of the significance-level
  table are 0, and \<^verbatim>\<open>bound_get_nk\<close> returns 0 for the hypotheses 0 and 1.
\<close>

theorem dummy_entries_zero:
  "built N b \<Longrightarrow>
   rd (nk_table b) 0 = Inr 0 \<and> rd (nk_table b) 1 = Inr 0 \<and>
   rd (ak_table b) 0 = Inr 0 \<and> rd (ak_table b) 1 = Inr 0 \<and>
   bound_get_nk (Some b) 0 = Inr (Some b, 0) \<and> bound_get_nk (Some b) 1 = Inr (Some b, 0)"
proof -
  assume "built N b"
  then have inv: "table_inv (max_n b + 1) b" by (rule built_inv)
  then obtain c nk where m: "2 \<le> max_n b" and
    ak: "ak_table b = Some (significance_levels c (max_n b + 1))" and
    nk: "nk_table b = Some nk" "length nk = max_n b + 1" "nk ! 0 = 0" "nk ! 1 = 0"
    by (auto simp: table_inv_def)
  have "rd (nk_table b) 0 = Inr 0" "rd (nk_table b) 1 = Inr 0"
    using nk m by (simp_all add: rd_def)
  moreover have "rd (ak_table b) 0 = Inr 0" "rd (ak_table b) 1 = Inr 0"
    using ak m by (simp_all add: rd_def length_significance_levels significance_levels_nth)
  moreover have "bound_get_nk (Some b) 0 = Inr (Some b, 0)" "bound_get_nk (Some b) 1 = Inr (Some b, 0)"
    using nk m by (simp_all add: bound_get_nk_def rd_def)
  ultimately show ?thesis by simp
qed

theorem dummy_entries_zero_witness:
  "rd (nk_table example_batch3) 0 = Inr 0 \<and> rd (nk_table example_batch3) 1 = Inr 0 \<and>
   rd (ak_table example_batch3) 0 = Inr 0 \<and> rd (ak_table example_batch3) 1 = Inr 0 \<and>
   bound_get_nk (Some example_batch3) 0 = Inr (Some example_batch3, 0) \<and>
   bound_get_nk (Some example_batch3) 1 = Inr (Some example_batch3, 0)"
  using dummy_entries_zero [OF built_batch3] .

subsection \<open>Failure results\<close>

lemma bound_build_not_NULL: "bound_build n a (Some b) e \<noteq> Inr None"
  by (auto simp: bound_build_def split: option.splits sum.splits if_splits)

text \<open>
  C8, as the code has it.  \<^verbatim>\<open>bound_create\<close> returns \<^verbatim>\<open>NULL\<close> exactly when one of
  its allocations fails, whatever \<open>max_branch\<close> is.
\<close>

theorem bound_create_NULL_iff:
  "bound_create n a c max_interfaces max_branch = Inr None \<longleftrightarrow>
     \<not> a_bound a \<or> \<not> a_nk a \<or> \<not> a_ak a \<or> \<not> a_pr a \<or> \<not> a_state a \<or>
     a_first a = None \<or> a_second a = None"
  using bound_build_not_NULL
  by (auto simp: bound_create_def calloc_def bound_state_create_def malloc_def
      split: option.splits sum.splits)

theorem bound_create_NULL_iff_witness:
  "bound_create 40 (example_allocs\<lparr>a_second := None\<rparr>) (95 / 100) 2 0 = Inr None"
  using bound_create_NULL_iff [of 40 "example_allocs\<lparr>a_second := None\<rparr>" "95 / 100" 2 0]
  by simp

text \<open>
  C8 as stated fails: with \<open>max_branch = 0\<close> and every allocation succeeding,
  \<^verbatim>\<open>bound_create\<close> returns a table, built for the node confidence 1.
\<close>

theorem bound_create_zero_branch_counterexample:
  "bound_create 40 example_allocs (95 / 100) 2 0 =
     Inr (Some \<lparr>confidence = Some 1, max_n = 2, nk_table = Some [0, 0, 5],
                ak_table = Some [0, 0, 1 / 10], pr_failure = Some [0, 0, 1 / 16],
                state = Some \<lparr>first = Some [0, 1 / 16], second = Some [0, 1 / 8]\<rparr>\<rparr>)"
  by (simp add: eval_simps node_confidence_zero_branch)

text \<open>
  C2 on a failing input.  When the \<^verbatim>\<open>realloc\<close> of the stopping-point table fails
  while growing \<open>example_bound\<close> to 3, \<^verbatim>\<open>reallocate_bound\<close> has already grown both
  vectors and stores \<^verbatim>\<open>NULL\<close> in \<^verbatim>\<open>nk_table\<close>; \<^verbatim>\<open>bound_build\<close> then rebuilds from
  hypothesis 2 and reads through the \<^verbatim>\<open>NULL\<close> pointer.
\<close>

theorem reallocate_failure_leaves_null:
  "reallocate_bound (stale_allocs\<lparr>r_nk := None\<rparr>) example_bound 3 =
     Inr (False, example_bound\<lparr>nk_table := None,
        state := Some \<lparr>first = Some [0, 1 / 16, 7], second = Some [0, 1 / 8, 7]\<rparr>\<rparr>) \<and>
   bound_build 40 (stale_allocs\<lparr>r_nk := None\<rparr>) (Some example_bound) 3 = Inl NullDeref"
  by (simp add: eval_simps)

text \<open>
  C5 on a failing input.  Built in one call for 3 hypotheses, the table stops hypothesis
  3 at 9 probes; built for 2 hypotheses and grown to 3, with the cell
  \<^verbatim>\<open>nk_table[3]\<close> that \<^verbatim>\<open>realloc\<close> does not initialise holding 2, it stops at 7.
\<close>

theorem incremental_differs_from_batch:
  "bound_create 40 example_allocs (95 / 100) 3 1 = Inr (Some example_batch3) \<and>
   bound_get_nk (Some example_batch3) 3 = Inr (Some example_batch3, 9) \<and>
   bound_create 40 example_allocs (95 / 100) 2 1 = Inr (Some example_bound) \<and>
   bound_build 40 stale_allocs (Some example_bound) 3 = Inr (Some example_stale3) \<and>
   bound_get_nk (Some example_stale3) 3 = Inr (Some example_stale3, 7)"
  using create_batch3 create_example grow_stale3
  by (simp add: bound_get_nk_def rd_def example_batch3_def example_stale3_def)

end
